theory Spec2Isabelle
  imports Main "HOL-Library.Sublist"
begin

section \<open>The development build orchestrator\<close>

text \<open>
  The watch script builds every package once, then rebuilds the package a changed
  file belongs to. It runs on a single-threaded event loop: an \<^verbatim>\<open>async\<close> function
  runs until its next \<^verbatim>\<open>await\<close>, and the loop then runs whichever callback or
  continuation comes next. The model is a transition system whose steps are these
  callbacks and continuations; each source function is cut at its \<^verbatim>\<open>await\<close>s.

  Paths are the segment lists of resolved absolute paths. The script's imports
  \<^verbatim>\<open>packagesDir\<close> and \<^verbatim>\<open>packages\<close> (from \<^verbatim>\<open>./utils.mjs\<close>) are parameters.
\<close>

type_synonym path = "string list"

record config =
  packagesDir :: path
  packages :: "string list"

subsection \<open>Console output\<close>

datatype kind = Change | Add | Unlink

datatype line =
    Watching                      \<comment> \<open>\<^verbatim>\<open>Watching packages for changes...\<close>\<close>
  | BuildingAll                   \<comment> \<open>\<^verbatim>\<open>Building all packages initially...\<close>\<close>
  | AllBuilt                      \<comment> \<open>\<^verbatim>\<open>All packages built. Watching for changes...\<close>\<close>
  | Building string               \<comment> \<open>\<^verbatim>\<open>[building] name\<close>\<close>
  | Built string                  \<comment> \<open>\<^verbatim>\<open>name built successfully\<close>\<close>
  | ErrorBuilding string string   \<comment> \<open>\<^verbatim>\<open>Error building name:\<close> and the error's message\<close>
  | Seen kind path                \<comment> \<open>\<^verbatim>\<open>[changed]\<close>, \<^verbatim>\<open>[added]\<close> or \<^verbatim>\<open>[deleted]\<close> and the file path\<close>
  | WatchError string             \<comment> \<open>\<^verbatim>\<open>[watch error]\<close>\<close>

subsection \<open>State\<close>

text \<open>
  How the body of the \<^verbatim>\<open>try\<close> block of \<^verbatim>\<open>buildPackage\<close> ends: it runs to its end,
  it returns early (the \<^verbatim>\<open>return\<close> inside the loop over the svelte files), or it
  throws an error with a message. What the body does to the file system is opaque.
\<close>

datatype outcome = Succeeded | Returned | Threw string

text \<open>
  The body can also throw a value that has no property to read, \<^verbatim>\<open>null\<close> or
  \<^verbatim>\<open>undefined\<close> (what an \<^verbatim>\<open>await\<close> of a promise rejected without a reason throws).
\<close>

datatype ending = Ends outcome | ThrowsValue

datatype promise = Pending | Fulfilled | Rejected string

text \<open>Which \<^verbatim>\<open>await buildPackage(...)\<close> waits for an invocation: the one in
  \<^verbatim>\<open>queueBuild\<close> or the one in the initial loop.\<close>

datatype awaiter = FromQueue | FromInitial

text \<open>An invocation of \<^verbatim>\<open>buildPackage\<close> that has started and whose awaiter has not
  resumed: its parameter, its local \<^verbatim>\<open>originalCwd\<close>, and the promise it returned. An
  invocation whose promise is rejected stays: its awaiter never resumes.\<close>

record task =
  name :: string
  originalCwd :: path
  awaited :: awaiter
  settled :: promise

text \<open>
  \<open>timeout\<close> is the variable of that name in the closure of \<^verbatim>\<open>debounce\<close>, together
  with the arguments the armed \<^verbatim>\<open>later\<close> has captured: \<open>Some (due, args)\<close> while a
  timer is armed, due at time \<open>due\<close>. \<open>todo\<close> is what the initial loop has still to
  iterate over. \<open>fired\<close> records every run of the debounced function (when and with
  which arguments) and \<open>unhandled\<close> every rejection that reaches the top of an
  \<^verbatim>\<open>async\<close> call nobody awaits (or the top level of the script). What the
  runtime does with such a rejection, a warning or the end of the process, is not
  modelled.
\<close>

record state =
  cwd :: path
  building :: "string set"
  buildQueue :: "string set"
  timeout :: "(nat \<times> string) option"
  tasks :: "task list"
  todo :: "string list"
  console :: "line list"
  clock :: nat
  fired :: "(nat \<times> string) list"
  unhandled :: "string list"

subsection \<open>buildPackage\<close>

text \<open>
  From the call to the first \<^verbatim>\<open>await\<close>: the log line, \<^verbatim>\<open>root\<close>, \<^verbatim>\<open>originalCwd\<close>
  and \<^verbatim>\<open>process.chdir(root)\<close>. The process's working directory is assumed to exist
  at the call, so that \<^verbatim>\<open>process.cwd()\<close>, which stands before the \<^verbatim>\<open>try\<close>, does not
  throw; a \<^verbatim>\<open>process.chdir(root)\<close> that throws is an ending \<open>Threw\<close> of the body.
\<close>

definition buildPackage :: "config \<Rightarrow> awaiter \<Rightarrow> string \<Rightarrow> state \<Rightarrow> state" where
  "buildPackage cfg a nm s =
     s\<lparr> console := console s @ [Building nm],
        cwd := packagesDir cfg @ [nm],
        tasks := tasks s @ [\<lparr> name = nm, originalCwd = cwd s, awaited = a, settled = Pending \<rparr>] \<rparr>"

text \<open>
  The end of the \<^verbatim>\<open>try\<close> block, the \<^verbatim>\<open>catch\<close> and the \<^verbatim>\<open>finally\<close>.
  The \<^verbatim>\<open>catch\<close> logs \<^verbatim>\<open>error.message\<close>: for an error with a message that is the
  line; for a thrown \<^verbatim>\<open>null\<close> or \<^verbatim>\<open>undefined\<close> reading the property throws a
  \<^verbatim>\<open>TypeError\<close> before anything is logged, and the \<^verbatim>\<open>catch\<close> is left by that throw.
  The \<^verbatim>\<open>finally\<close> runs in every case; \<open>restored\<close> says whether its
  \<^verbatim>\<open>process.chdir(originalCwd)\<close> succeeds. A throw out of the \<^verbatim>\<open>catch\<close> or the
  \<^verbatim>\<open>finally\<close> rejects the promise of the invocation, the one of the \<^verbatim>\<open>finally\<close>
  taking precedence.
\<close>

fun finish_lines :: "string \<Rightarrow> outcome \<Rightarrow> line list" where
  "finish_lines nm Succeeded = [Built nm]"
| "finish_lines nm Returned = []"
| "finish_lines nm (Threw msg) = [ErrorBuilding nm msg]"

fun ending_lines :: "string \<Rightarrow> ending \<Rightarrow> line list" where
  "ending_lines nm (Ends out) = finish_lines nm out"
| "ending_lines nm ThrowsValue = []"

fun promise_of :: "ending \<Rightarrow> bool \<Rightarrow> promise" where
  "promise_of e False = Rejected ''ENOENT''"
| "promise_of (Ends out) True = Fulfilled"
| "promise_of ThrowsValue True = Rejected ''TypeError''"

definition buildPackage_finish :: "nat \<Rightarrow> ending \<Rightarrow> bool \<Rightarrow> state \<Rightarrow> state" where
  "buildPackage_finish i e restored s =
     (let t = tasks s ! i in
      s\<lparr> console := console s @ ending_lines (name t) e,
         cwd := (if restored then originalCwd t else cwd s),
         tasks := (tasks s)[i := t\<lparr>settled := promise_of e restored\<rparr>] \<rparr>)"

subsection \<open>getPackageName\<close>

text \<open>
  \<^verbatim>\<open>path.relative(from, to)\<close> of Node on resolved paths: the common prefix is
  dropped, and each remaining segment of \<open>from\<close> becomes \<^verbatim>\<open>..\<close>.
\<close>

fun relative :: "path \<Rightarrow> path \<Rightarrow> path" where
  "relative [] ts = ts"
| "relative (f # fs) [] = replicate (length (f # fs)) ''..''"
| "relative (f # fs) (t # ts) =
     (if f = t then relative fs ts else replicate (length (f # fs)) ''..'' @ (t # ts))"

text \<open>\<^verbatim>\<open>relativePath.split(path.sep)[0]\<close>: splitting the empty string gives one
  empty part.\<close>

definition getPackageName :: "config \<Rightarrow> path \<Rightarrow> string" where
  "getPackageName cfg filePath =
     (case relative (packagesDir cfg) filePath of [] \<Rightarrow> '''' | part # _ \<Rightarrow> part)"

subsection \<open>queueBuild\<close>

text \<open>From the call to \<^verbatim>\<open>await buildPackage(packageName)\<close>.\<close>

definition queueBuild :: "config \<Rightarrow> string \<Rightarrow> state \<Rightarrow> state" where
  "queueBuild cfg packageName s =
     (if packageName \<in> building s
      then s\<lparr>buildQueue := insert packageName (buildQueue s)\<rparr>
      else buildPackage cfg FromQueue packageName
             (s\<lparr>building := insert packageName (building s)\<rparr>))"

text \<open>After the \<^verbatim>\<open>await\<close>: \<^verbatim>\<open>building.delete\<close>, then the queue.\<close>

definition queueBuild_resume :: "config \<Rightarrow> string \<Rightarrow> state \<Rightarrow> state" where
  "queueBuild_resume cfg packageName s =
     (let s1 = s\<lparr>building := building s - {packageName}\<rparr> in
      if packageName \<in> buildQueue s1
      then queueBuild cfg packageName (s1\<lparr>buildQueue := buildQueue s1 - {packageName}\<rparr>)
      else s1)"

subsection \<open>debounce\<close>

text \<open>\<^verbatim>\<open>executedFunction(...args)\<close>: the armed timer, if any, is cleared and a new
  one is armed.\<close>

definition executedFunction :: "nat \<Rightarrow> string \<Rightarrow> state \<Rightarrow> state" where
  "executedFunction wait args s = s\<lparr>timeout := Some (clock s + wait, args)\<rparr>"

text \<open>\<^verbatim>\<open>later\<close>, run by the timer: \<^verbatim>\<open>func(...args)\<close>.\<close>

definition later :: "(string \<Rightarrow> state \<Rightarrow> state) \<Rightarrow> state \<Rightarrow> state" where
  "later func s =
     (case timeout s of
        None \<Rightarrow> s
      | Some (due, args) \<Rightarrow> func args (s\<lparr>timeout := None, fired := fired s @ [(clock s, args)]\<rparr>))"

definition debouncedBuild :: "string \<Rightarrow> state \<Rightarrow> state" where
  "debouncedBuild = executedFunction 300"

subsection \<open>The watcher's handlers\<close>

definition on_fs :: "config \<Rightarrow> kind \<Rightarrow> path \<Rightarrow> state \<Rightarrow> state" where
  "on_fs cfg k filePath s =
     (let packageName = getPackageName cfg filePath in
      if packageName \<in> set (packages cfg)
      then debouncedBuild packageName (s\<lparr>console := console s @ [Seen k filePath]\<rparr>)
      else s)"

definition on_error :: "string \<Rightarrow> state \<Rightarrow> state" where
  "on_error e s = s\<lparr>console := console s @ [WatchError e]\<rparr>"

subsection \<open>The initial loop\<close>

text \<open>One iteration of \<^verbatim>\<open>for (const pkg of packages) await buildPackage(pkg)\<close>, up to
  its \<^verbatim>\<open>await\<close>, or the line after the loop.\<close>

definition initial_next :: "config \<Rightarrow> state \<Rightarrow> state" where
  "initial_next cfg s =
     (case todo s of
        [] \<Rightarrow> s\<lparr>console := console s @ [AllBuilt]\<rparr>
      | pkg # rest \<Rightarrow> buildPackage cfg FromInitial pkg (s\<lparr>todo := rest\<rparr>))"

text \<open>The script from its first line to its first \<^verbatim>\<open>await\<close>.\<close>

definition init :: "config \<Rightarrow> path \<Rightarrow> state" where
  "init cfg cwd0 =
     initial_next cfg
       \<lparr> cwd = cwd0, building = {}, buildQueue = {}, timeout = None, tasks = [],
         todo = packages cfg, console = [Watching, BuildingAll], clock = 0,
         fired = [], unhandled = [] \<rparr>"

subsection \<open>The event loop\<close>

text \<open>
  \<open>Elapse d\<close>: \<open>d\<close> time-units pass; a timer that falls due runs at its due time.
  \<open>Emit\<close>, \<open>EmitError\<close>: the watcher calls a handler.
  \<open>Finish i out\<close>: the \<^verbatim>\<open>try\<close> body of the \<open>i\<close>-th invocation ends with \<open>out\<close>, and
  the \<^verbatim>\<open>finally\<close> restores the directory: the promise is fulfilled.
  \<open>Fail i f\<close>: the \<open>i\<close>-th invocation ends with its promise rejected: its body throws
  \<^verbatim>\<open>null\<close> or \<^verbatim>\<open>undefined\<close> (\<open>NoMessage\<close>), or the body ends with \<open>e\<close> and
  \<^verbatim>\<open>process.chdir(originalCwd)\<close> throws (\<open>NoDirectory e\<close>). The \<^verbatim>\<open>await\<close> of the
  invocation then throws.
  \<open>Resume i\<close>: the code after the \<^verbatim>\<open>await\<close> of the \<open>i\<close>-th invocation runs; the
  promise is fulfilled.
\<close>

datatype fault = NoMessage | NoDirectory ending

datatype event =
    Elapse nat
  | Emit kind path
  | EmitError string
  | Finish nat outcome
  | Fail nat fault
  | Resume nat

definition elapse :: "config \<Rightarrow> nat \<Rightarrow> state \<Rightarrow> state" where
  "elapse cfg d s =
     (case timeout s of
        None \<Rightarrow> s\<lparr>clock := clock s + d\<rparr>
      | Some (due, args) \<Rightarrow>
          if due \<le> clock s + d
          then (later (queueBuild cfg) (s\<lparr>clock := due\<rparr>))\<lparr>clock := clock s + d\<rparr>
          else s\<lparr>clock := clock s + d\<rparr>)"

text \<open>After the \<^verbatim>\<open>await\<close> of a fulfilled promise the awaiting function goes on.\<close>

definition resume :: "config \<Rightarrow> task \<Rightarrow> state \<Rightarrow> state" where
  "resume cfg t s =
     (case awaited t of
        FromQueue \<Rightarrow> queueBuild_resume cfg (name t) s
      | FromInitial \<Rightarrow> initial_next cfg s)"

text \<open>The \<^verbatim>\<open>await\<close> of a rejected promise throws; neither \<^verbatim>\<open>queueBuild\<close> nor the
  initial loop catches, so the awaiting function ends there, with a rejection nobody
  handles: \<^verbatim>\<open>queueBuild\<close> does not reach \<^verbatim>\<open>building.delete\<close>, the loop does not
  reach its next package.\<close>

definition await_throws :: "nat \<Rightarrow> state \<Rightarrow> state" where
  "await_throws i s =
     (case settled (tasks s ! i) of
        Rejected x \<Rightarrow> s\<lparr>unhandled := unhandled s @ [x]\<rparr>
      | _ \<Rightarrow> s)"

fun fail :: "nat \<Rightarrow> fault \<Rightarrow> state \<Rightarrow> state" where
  "fail i NoMessage s = await_throws i (buildPackage_finish i ThrowsValue True s)"
| "fail i (NoDirectory e) s = await_throws i (buildPackage_finish i e False s)"

fun step :: "config \<Rightarrow> event \<Rightarrow> state \<Rightarrow> state option" where
  "step cfg (Elapse d) s = Some (elapse cfg d s)"
| "step cfg (Emit k filePath) s = Some (on_fs cfg k filePath s)"
| "step cfg (EmitError e) s = Some (on_error e s)"
| "step cfg (Finish i out) s =
     (if i < length (tasks s) \<and> settled (tasks s ! i) = Pending
      then Some (buildPackage_finish i (Ends out) True s) else None)"
| "step cfg (Fail i f) s =
     (if i < length (tasks s) \<and> settled (tasks s ! i) = Pending
      then Some (fail i f s) else None)"
| "step cfg (Resume i) s =
     (if i < length (tasks s) \<and> settled (tasks s ! i) = Fulfilled
      then Some (resume cfg (tasks s ! i)
                   (s\<lparr>tasks := take i (tasks s) @ drop (Suc i) (tasks s)\<rparr>))
      else None)"

fun run :: "config \<Rightarrow> event list \<Rightarrow> state \<Rightarrow> state option" where
  "run cfg [] s = Some s"
| "run cfg (e # es) s = (case step cfg e s of None \<Rightarrow> None | Some s' \<Rightarrow> run cfg es s')"

text \<open>The invocations of \<^verbatim>\<open>buildPackage\<close> for a package that have started and not
  ended.\<close>

definition outstanding :: "state \<Rightarrow> string \<Rightarrow> nat" where
  "outstanding s nm = length (filter (\<lambda>t. name t = nm \<and> settled t = Pending) (tasks s))"

subsection \<open>Traces and an example registry\<close>

text \<open>A burst of watcher events: each arrives \<open>d\<close> time-units after the one before.\<close>

fun burst :: "(nat \<times> kind \<times> path) list \<Rightarrow> event list" where
  "burst [] = []"
| "burst ((d, k, filePath) # r) = Elapse d # Emit k filePath # burst r"

text \<open>The initial pass left alone: the only invocation there is ends, and the loop
  goes on; \<open>pass_lines\<close> is what this prints for the packages still to build.\<close>

fun pass :: "outcome list \<Rightarrow> event list" where
  "pass [] = []"
| "pass (out # outs) = Finish 0 out # Resume 0 # pass outs"


definition example_cfg :: config where
  "example_cfg = \<lparr> packagesDir = [''repo'', ''packages''], packages = [''a'', ''b''] \<rparr>"

subsection \<open>Auxiliary notions\<close>


text \<open>The packages \<^verbatim>\<open>buildPackage\<close> was called for, read off the console.\<close>

fun build_calls :: "line list \<Rightarrow> string list" where
  "build_calls [] = []"
| "build_calls (Building nm # ls) = nm # build_calls ls"
| "build_calls (_ # ls) = build_calls ls"


text \<open>The packages of the invocations that one of the two \<^verbatim>\<open>await\<close>s waits for.
  Those of \<^verbatim>\<open>queueBuild\<close> are \<open>tracked\<close> when no package occurs twice and all are
  in \<open>building\<close>; the initial loop is \<open>in_order\<close> when it has at most one, followed
  in the registry by what the loop has still to build.\<close>

definition invocations :: "awaiter \<Rightarrow> state \<Rightarrow> string list" where
  "invocations a s = map name (filter (\<lambda>t. awaited t = a) (tasks s))"

definition tracked :: "state \<Rightarrow> bool" where
  "tracked s = (distinct (invocations FromQueue s) \<and> set (invocations FromQueue s) \<subseteq> building s)"


text \<open>The example registry after its initial pass, a change to a file of \<open>a\<close> and
  300 time-units: the build of \<open>a\<close> is under way.\<close>

definition example_busy :: state where
  "example_busy =
     \<lparr> cwd = [''repo'', ''packages'', ''a''], building = {''a''}, buildQueue = {}, timeout = None,
       tasks = [\<lparr>name = ''a'', originalCwd = [''repo''], awaited = FromQueue, settled = Pending\<rparr>],
       todo = [],
       console = [Watching, BuildingAll, Building ''a'', Built ''a'', Building ''b'', Built ''b'',
                  AllBuilt, Seen Change [''repo'', ''packages'', ''a'', ''src'', ''x.ts''],
                  Building ''a''],
       clock = 300, fired = [(300, ''a'')], unhandled = [] \<rparr>"

section \<open>Path resolution\<close>

lemma relative_outside:
  "relative dir p = [] \<or> hd (relative dir p) = ''..'' \<or> (\<exists>n r. p = dir @ n # r \<and> relative dir p = n # r)"
  by (induction dir p rule: relative.induct) (auto simp: neq_Nil_conv)

text \<open>
  C7. A file path that lies under the directory of no registered package
  (\<^verbatim>\<open>path.resolve(packagesDir, name)\<close>, the \<^verbatim>\<open>root\<close> of \<^verbatim>\<open>buildPackage\<close>) resolves to
  a name that is not registered, and the handler then does nothing at all: no log
  line, no timer, no build; the state is the one before the event. Package names
  are directory names, so neither the empty name nor \<^verbatim>\<open>..\<close> is one.
\<close>

theorem unregistered_path_dropped:
  assumes "\<forall>n \<in> set (packages cfg). \<not> prefix (packagesDir cfg @ [n]) filePath"
    and "'''' \<notin> set (packages cfg)" and "''..'' \<notin> set (packages cfg)"
  shows "getPackageName cfg filePath \<notin> set (packages cfg)
         \<and> step cfg (Emit k filePath) s = Some s"
proof -
  have "getPackageName cfg filePath \<notin> set (packages cfg)"
    using relative_outside [of "packagesDir cfg" filePath] assms
    by (auto simp: getPackageName_def prefix_def split: list.splits)
  then show ?thesis by (simp add: on_fs_def)
qed

theorem unregistered_path_dropped_witness:
  "\<not> prefix (packagesDir example_cfg @ [''a'']) [''repo'', ''scripts'', ''x.mjs'']
   \<and> \<not> prefix (packagesDir example_cfg @ [''b'']) [''repo'', ''scripts'', ''x.mjs'']
   \<and> packages example_cfg = [''a'', ''b'']
   \<and> getPackageName example_cfg [''repo'', ''scripts'', ''x.mjs''] \<notin> set (packages example_cfg)
   \<and> step example_cfg (Emit Change [''repo'', ''scripts'', ''x.mjs'']) (init example_cfg [''repo''])
       = Some (init example_cfg [''repo''])"
proof -
  have h: "\<forall>n \<in> set (packages example_cfg).
             \<not> prefix (packagesDir example_cfg @ [n]) [''repo'', ''scripts'', ''x.mjs'']"
    "'''' \<notin> set (packages example_cfg)" "''..'' \<notin> set (packages example_cfg)"
    by (simp_all add: example_cfg_def)
  show ?thesis
    using unregistered_path_dropped [OF h, of Change "init example_cfg [''repo'']"]
    by (simp add: example_cfg_def)
qed

section \<open>Basic facts\<close>

text \<open>An ending that the \<^verbatim>\<open>catch\<close> absorbs, with the directory restored.\<close>

lemma finish_ends:
  "buildPackage_finish i (Ends out) True s =
     s\<lparr> console := console s @ finish_lines (name (tasks s ! i)) out,
        cwd := originalCwd (tasks s ! i),
        tasks := (tasks s)[i := (tasks s ! i)\<lparr>settled := Fulfilled\<rparr>] \<rparr>"
  by (simp add: buildPackage_finish_def Let_def)

text \<open>An invocation that ends, either way, changes its own promise, the console and the
  working directory, and a rejection adds to \<open>unhandled\<close>; nothing else.\<close>

lemma await_throws_eq:
  "\<exists>p ls d u. await_throws i (buildPackage_finish i e r s) =
     s\<lparr> console := console s @ ls, cwd := d,
        tasks := (tasks s)[i := (tasks s ! i)\<lparr>settled := p\<rparr>],
        unhandled := unhandled s @ u \<rparr>"
proof -
  define p where "p = promise_of e r"
  define ls where "ls = ending_lines (name (tasks s ! i)) e"
  define d where "d = (if r then originalCwd (tasks s ! i) else cwd s)"
  define s1 where "s1 = buildPackage_finish i e r s"
  have s1: "s1 = s\<lparr> console := console s @ ls, cwd := d,
                     tasks := (tasks s)[i := (tasks s ! i)\<lparr>settled := p\<rparr>] \<rparr>"
    by (simp add: s1_def buildPackage_finish_def Let_def p_def ls_def d_def)
  have u: "unhandled s1 = unhandled s" by (simp add: s1)
  show ?thesis
  proof (cases "settled (tasks s1 ! i)")
    case (Rejected x)
    then have "await_throws i s1 = s1\<lparr>unhandled := unhandled s @ [x]\<rparr>"
      by (simp add: await_throws_def u)
    then have "await_throws i (buildPackage_finish i e r s) =
       s\<lparr> console := console s @ ls, cwd := d,
          tasks := (tasks s)[i := (tasks s ! i)\<lparr>settled := p\<rparr>],
          unhandled := unhandled s @ [x] \<rparr>"
      unfolding s1_def [symmetric] by (simp add: s1)
    then show ?thesis by (intro exI)
  next
    case Pending
    then have "await_throws i s1 = s1\<lparr>unhandled := unhandled s @ []\<rparr>"
      by (simp add: await_throws_def u [symmetric])
    then have "await_throws i (buildPackage_finish i e r s) =
       s\<lparr> console := console s @ ls, cwd := d,
          tasks := (tasks s)[i := (tasks s ! i)\<lparr>settled := p\<rparr>],
          unhandled := unhandled s @ [] \<rparr>"
      unfolding s1_def [symmetric] by (simp add: s1)
    then show ?thesis by (intro exI)
  next
    case Fulfilled
    then have "await_throws i s1 = s1\<lparr>unhandled := unhandled s @ []\<rparr>"
      by (simp add: await_throws_def u [symmetric])
    then have "await_throws i (buildPackage_finish i e r s) =
       s\<lparr> console := console s @ ls, cwd := d,
          tasks := (tasks s)[i := (tasks s ! i)\<lparr>settled := p\<rparr>],
          unhandled := unhandled s @ [] \<rparr>"
      unfolding s1_def [symmetric] by (simp add: s1)
    then show ?thesis by (intro exI)
  qed
qed

lemma fail_eq:
  "\<exists>p ls d u. fail i f s =
     s\<lparr> console := console s @ ls, cwd := d,
        tasks := (tasks s)[i := (tasks s ! i)\<lparr>settled := p\<rparr>],
        unhandled := unhandled s @ u \<rparr>"
  by (cases f) (simp_all add: await_throws_eq)

lemma ends_step:
  assumes "step cfg e s = Some s'" "e = Finish i out \<or> e = Fail i f"
  shows "i < length (tasks s)"
    and "\<exists>p ls d u. s' =
     s\<lparr> console := console s @ ls, cwd := d,
        tasks := (tasks s)[i := (tasks s ! i)\<lparr>settled := p\<rparr>],
        unhandled := unhandled s @ u \<rparr>"
proof -
  show "i < length (tasks s)" using assms by (auto split: if_splits)
  show "\<exists>p ls d u. s' =
     s\<lparr> console := console s @ ls, cwd := d,
        tasks := (tasks s)[i := (tasks s ! i)\<lparr>settled := p\<rparr>],
        unhandled := unhandled s @ u \<rparr>"
  proof (cases "e = Finish i out")
    case True
    with assms(1) have "s' = buildPackage_finish i (Ends out) True s" by (auto split: if_splits)
    then have "s' = s\<lparr> console := console s @ finish_lines (name (tasks s ! i)) out,
        cwd := originalCwd (tasks s ! i),
        tasks := (tasks s)[i := (tasks s ! i)\<lparr>settled := Fulfilled\<rparr>],
        unhandled := unhandled s @ [] \<rparr>"
      by (simp add: finish_ends)
    then show ?thesis by (intro exI)
  next
    case False
    with assms have "s' = fail i f s" by (auto split: if_splits)
    then show ?thesis using fail_eq [of i f s] by simp
  qed
qed


lemma run_invariant:
  assumes "P s0"
    and "\<And>e s s'. P s \<Longrightarrow> step cfg e s = Some s' \<Longrightarrow> P s'"
    and "run cfg es s0 = Some s"
  shows "P s"
  using assms(1,3)
proof (induction es arbitrary: s0)
  case Nil
  then show ?case by simp
next
  case (Cons e es)
  then show ?case by (auto split: option.splits intro: assms(2))
qed

lemma run_append:
  "run cfg (es @ fs) s = (case run cfg es s of None \<Rightarrow> None | Some s' \<Rightarrow> run cfg fs s')"
  by (induction es arbitrary: s) (auto split: option.splits)





lemma build_calls_append: "build_calls (xs @ ys) = build_calls xs @ build_calls ys"
  by (induction xs rule: build_calls.induct) auto

lemmas ev = example_cfg_def init_def initial_next_def buildPackage_def finish_ends
  queueBuild_def queueBuild_resume_def executedFunction_def later_def debouncedBuild_def
  on_fs_def on_error_def elapse_def resume_def getPackageName_def Let_def

lemma example_busy_reachable:
  "run example_cfg
     (pass [Succeeded, Succeeded] @ [Emit Change [''repo'', ''packages'', ''a'', ''src'', ''x.ts''], Elapse 300])
     (init example_cfg [''repo'']) = Some example_busy"
  by (simp add: ev example_busy_def)

section \<open>Invariants of the scheduler\<close>












section \<open>Invocations and their awaiters\<close>

lemma invocations_buildPackage:
  "invocations a (buildPackage cfg b nm s) = invocations a s @ (if b = a then [nm] else [])"
  by (simp add: invocations_def buildPackage_def)

lemma invocations_update:
  assumes "i < length xs" "name y = name (xs ! i)" "awaited y = awaited (xs ! i)"
  shows "map name (filter (\<lambda>t. awaited t = a) (xs[i := y]))
         = map name (filter (\<lambda>t. awaited t = a) xs)"
  using assms
proof (induction xs arbitrary: i)
  case Nil
  then show ?case by simp
next
  case (Cons x xs)
  then show ?case by (cases i) auto
qed

lemma invocations_ended:
  assumes "step cfg e s = Some s'" "e = Finish i out \<or> e = Fail i f"
  shows "invocations a s' = invocations a s" "building s' = building s" "todo s' = todo s"
proof -
  from ends_step [OF assms] obtain p ls d u where i: "i < length (tasks s)"
    and s': "s' = s\<lparr> console := console s @ ls, cwd := d,
             tasks := (tasks s)[i := (tasks s ! i)\<lparr>settled := p\<rparr>], unhandled := unhandled s @ u \<rparr>"
    by auto
  show "invocations a s' = invocations a s"
    using i by (simp add: s' invocations_def invocations_update)
  show "building s' = building s" "todo s' = todo s" by (simp_all add: s')
qed

lemma invocations_split:
  assumes "i < length xs"
  shows "map name (filter (\<lambda>t. awaited t = a) xs)
         = map name (filter (\<lambda>t. awaited t = a) (take i xs))
           @ (if awaited (xs ! i) = a then [name (xs ! i)] else [])
           @ map name (filter (\<lambda>t. awaited t = a) (drop (Suc i) xs))"
proof -
  have "xs = take i xs @ xs ! i # drop (Suc i) xs" using assms by (rule id_take_nth_drop)
  then have "map name (filter (\<lambda>t. awaited t = a) xs)
      = map name (filter (\<lambda>t. awaited t = a) (take i xs @ xs ! i # drop (Suc i) xs))"
    by simp
  then show ?thesis by simp
qed


lemma tracked_init: "tracked (init cfg cwd0)"
  by (simp add: tracked_def invocations_def init_def initial_next_def buildPackage_def split: list.splits)

lemma tracked_queueBuild: "tracked s \<Longrightarrow> tracked (queueBuild cfg n s)"
proof (cases "n \<in> building s")
  case True
  assume "tracked s"
  with True show ?thesis by (simp add: tracked_def queueBuild_def invocations_def)
next
  case False
  assume t: "tracked s"
  have q: "invocations FromQueue (s\<lparr>building := insert n (building s)\<rparr>) = invocations FromQueue s"
    by (simp add: invocations_def)
  have b: "building (buildPackage cfg FromQueue n (s\<lparr>building := insert n (building s)\<rparr>)) = insert n (building s)"
    by (simp add: buildPackage_def)
  from t False show ?thesis
    by (auto simp: tracked_def queueBuild_def invocations_buildPackage q b)
qed

lemma tracked_fields:
  "tracked (s\<lparr>clock := c\<rparr>) = tracked s" "tracked (s\<lparr>timeout := t\<rparr>) = tracked s"
  "tracked (s\<lparr>fired := f\<rparr>) = tracked s" "tracked (s\<lparr>console := l\<rparr>) = tracked s"
  "tracked (s\<lparr>unhandled := u\<rparr>) = tracked s" "tracked (s\<lparr>todo := d\<rparr>) = tracked s"
  by (simp_all add: tracked_def invocations_def)

lemma tracked_step: "tracked s \<Longrightarrow> step cfg e s = Some s' \<Longrightarrow> tracked s'"
proof (cases e)
  case (Elapse d)
  assume "tracked s" "step cfg e s = Some s'"
  then show ?thesis using Elapse
    by (auto simp: elapse_def later_def tracked_fields split: option.splits prod.splits
             intro!: tracked_queueBuild)
next
  case (Emit k p)
  assume "tracked s" "step cfg e s = Some s'"
  then show ?thesis using Emit
    by (auto simp: on_fs_def debouncedBuild_def executedFunction_def Let_def tracked_fields)
next
  case (EmitError x)
  assume "tracked s" "step cfg e s = Some s'"
  then show ?thesis using EmitError by (auto simp: on_error_def tracked_fields)
next
  case (Finish i out)
  assume a: "tracked s" "step cfg e s = Some s'"
  from invocations_ended [OF a(2), of i out undefined] Finish a(1) show ?thesis
    by (simp add: tracked_def)
next
  case (Fail i f)
  assume a: "tracked s" "step cfg e s = Some s'"
  from invocations_ended [OF a(2), of i undefined f] Fail a(1) show ?thesis
    by (simp add: tracked_def)
next
  case (Resume i)
  assume a: "tracked s" "step cfg e s = Some s'"
  with Resume have i: "i < length (tasks s)"
    and s': "s' = resume cfg (tasks s ! i) (s\<lparr>tasks := take i (tasks s) @ drop (Suc i) (tasks s)\<rparr>)"
    by (auto split: if_splits)
  let ?t = "tasks s ! i"
  let ?r = "s\<lparr>tasks := take i (tasks s) @ drop (Suc i) (tasks s)\<rparr>"
  let ?A = "map name (filter (\<lambda>t. awaited t = FromQueue) (take i (tasks s)))"
  let ?B = "map name (filter (\<lambda>t. awaited t = FromQueue) (drop (Suc i) (tasks s)))"
  have q: "invocations FromQueue s = ?A @ (if awaited ?t = FromQueue then [name ?t] else []) @ ?B"
    unfolding invocations_def using i by (rule invocations_split)
  have r: "invocations FromQueue ?r = ?A @ ?B" by (simp add: invocations_def)
  have tr: "tracked ?r" using a q r by (auto simp: tracked_def split: if_splits)
  show ?thesis
  proof (cases "awaited ?t")
    case FromQueue
    have n: "name ?t \<notin> set (invocations FromQueue ?r)"
      using a FromQueue unfolding tracked_def q r by auto
    have q1: "invocations FromQueue (?r\<lparr>building := building s - {name ?t}\<rparr>) = invocations FromQueue ?r"
      by (simp add: invocations_def)
    have d: "tracked (?r\<lparr>building := building s - {name ?t}\<rparr>)"
      using tr n unfolding tracked_def q1 by auto
    then have "tracked (?r\<lparr>building := building s - {name ?t}, buildQueue := buildQueue s - {name ?t}\<rparr>)"
      by (simp add: tracked_def invocations_def)
    with d have "tracked (queueBuild_resume cfg (name ?t) ?r)"
      by (simp add: queueBuild_resume_def Let_def tracked_queueBuild)
    with tr FromQueue show ?thesis
      by (simp add: s' resume_def tracked_fields split: promise.splits)
  next
    case FromInitial
    have "tracked (initial_next cfg ?r)"
    proof (cases "todo ?r")
      case Nil
      with tr show ?thesis by (simp add: initial_next_def tracked_fields)
    next
      case (Cons p ps)
      have "tracked (?r\<lparr>todo := ps\<rparr>)" using tr by (simp add: tracked_fields)
      then have "tracked (buildPackage cfg FromInitial p (?r\<lparr>todo := ps\<rparr>))"
        unfolding tracked_def invocations_buildPackage by (simp add: buildPackage_def)
      with Cons show ?thesis by (simp add: initial_next_def)
    qed
    with tr FromInitial show ?thesis
      by (simp add: s' resume_def tracked_fields split: promise.splits)
  qed
qed

lemma distinct_map_filter_le1:
  "distinct (map f xs) \<Longrightarrow> length (filter (\<lambda>x. f x = a) xs) \<le> 1"
  by (induction xs) (auto simp: filter_empty_conv image_iff)

text \<open>The builds that \<^verbatim>\<open>queueBuild\<close> starts never overlap for one package.\<close>

lemma queued_builds_never_overlap:
  assumes "run cfg es (init cfg cwd0) = Some s"
  shows "length (filter (\<lambda>t. name t = nm \<and> awaited t = FromQueue) (tasks s)) \<le> 1"
proof -
  have "tracked s"
    by (rule run_invariant [where P = tracked, OF tracked_init tracked_step assms])
  then have "length (filter (\<lambda>t. name t = nm) (filter (\<lambda>t. awaited t = FromQueue) (tasks s))) \<le> 1"
    unfolding tracked_def invocations_def by (intro distinct_map_filter_le1) simp
  then show ?thesis by (simp add: conj_commute)
qed

section \<open>Requests during a build\<close>





section \<open>A failing build\<close>



section \<open>The debouncer\<close>

text \<open>A registered event arms the one timer, whatever was armed.\<close>
lemma on_fs_registered:
  "getPackageName cfg filePath \<in> set (packages cfg) \<Longrightarrow>
   on_fs cfg k filePath s =
     s\<lparr>console := console s @ [Seen k filePath],
       timeout := Some (clock s + 300, getPackageName cfg filePath)\<rparr>"
  by (simp add: on_fs_def debouncedBuild_def executedFunction_def)

lemma elapse_early:
  "timeout s = Some (due, args) \<Longrightarrow> clock s + d < due \<Longrightarrow> elapse cfg d s = s\<lparr>clock := clock s + d\<rparr>"
  by (simp add: elapse_def)

lemma elapse_due:
  "timeout s = Some (due, args) \<Longrightarrow> due \<le> clock s + d \<Longrightarrow>
   elapse cfg d s =
     (queueBuild cfg args (s\<lparr>clock := due, timeout := None, fired := fired s @ [(due, args)]\<rparr>))
       \<lparr>clock := clock s + d\<rparr>"
  by (simp add: elapse_def later_def)

text \<open>During a burst no timer runs; the last event's timer is the armed one.\<close>
lemma run_burst:
  assumes "\<forall>(d, k, p) \<in> set r. d < 300 \<and> getPackageName cfg p \<in> set (packages cfg)"
    and "timeout s = Some (clock s + 300, nm)"
  shows "run cfg (burst r) s =
           Some (s\<lparr>console := console s @ map (\<lambda>(d, k, p). Seen k p) r,
                   clock := clock s + sum_list (map fst r),
                   timeout := Some (clock s + sum_list (map fst r) + 300,
                                    if r = [] then nm else getPackageName cfg (snd (snd (last r))))\<rparr>)"
  using assms
proof (induction r arbitrary: s nm)
  case Nil
  then show ?case by simp
next
  case (Cons x r)
  obtain d k p where x: "x = (d, k, p)" by (cases x) auto
  from Cons.prems x have d: "d < 300" and p: "getPackageName cfg p \<in> set (packages cfg)" by auto
  let ?s1 = "on_fs cfg k p (elapse cfg d s)"
  have e: "elapse cfg d s = s\<lparr>clock := clock s + d\<rparr>"
    using Cons.prems(2) d by (simp add: elapse_early)
  have s1: "?s1 = s\<lparr>clock := clock s + d, console := console s @ [Seen k p],
                     timeout := Some (clock s + d + 300, getPackageName cfg p)\<rparr>"
    using p by (simp add: e on_fs_registered)
  have "run cfg (burst (x # r)) s = run cfg (burst r) ?s1" by (simp add: x)
  also have "\<dots> = Some (?s1\<lparr>console := console ?s1 @ map (\<lambda>(d, k, p). Seen k p) r,
                   clock := clock ?s1 + sum_list (map fst r),
                   timeout := Some (clock ?s1 + sum_list (map fst r) + 300,
                                    if r = [] then getPackageName cfg p else getPackageName cfg (snd (snd (last r))))\<rparr>)"
    using Cons.prems(1) by (intro Cons.IH) (auto simp: s1)
  finally show ?case by (simp add: s1 x add.assoc)
qed

text \<open>
  C4, as amended. A burst of \<open>1 + length r\<close> watcher events for files of registered
  packages, the same or different ones, each less than 300 time-units after the one
  before, followed by 300 quiet time-units or more: the debounced function runs
  exactly once, 300 time-units after the last event of the burst, with the package
  \<open>nm\<close> of the last event as its argument, and no timer stays armed. The state then
  is that of one call \<^verbatim>\<open>queueBuild(nm)\<close>: one build of \<open>nm\<close> is started, or, when one is
  under way, \<open>nm\<close> is queued. When all events of the burst are for one package, that
  package is \<open>nm\<close>.
\<close>

theorem burst_fires_once:
  assumes p0: "getPackageName cfg p0 \<in> set (packages cfg)"
    and r: "\<forall>(d, k, p) \<in> set r. d < 300 \<and> getPackageName cfg p \<in> set (packages cfg)"
    and e: "300 \<le> e"
    and nm: "nm = getPackageName cfg (snd (snd (last ((0, k0, p0) # r))))"
  shows "\<exists>s'. run cfg (Emit k0 p0 # burst r @ [Elapse e]) s = Some s'
     \<and> fired s' = fired s @ [(clock s + sum_list (map fst r) + 300, nm)]
     \<and> timeout s' = None
     \<and> s' = (queueBuild cfg nm
               (s\<lparr>console := console s @ Seen k0 p0 # map (\<lambda>(d, k, p). Seen k p) r,
                  clock := clock s + sum_list (map fst r) + 300,
                  timeout := None,
                  fired := fired s @ [(clock s + sum_list (map fst r) + 300, nm)]\<rparr>))
             \<lparr>clock := clock s + sum_list (map fst r) + e\<rparr>
     \<and> tasks s' =
         (if nm \<in> building s then tasks s
          else tasks s @ [\<lparr>name = nm, originalCwd = cwd s, awaited = FromQueue, settled = Pending\<rparr>])
     \<and> building s' = insert nm (building s)
     \<and> buildQueue s' = (if nm \<in> building s then insert nm (buildQueue s) else buildQueue s)
     \<and> build_calls (console s') = build_calls (console s) @ (if nm \<in> building s then [] else [nm])
     \<and> ((\<forall>(d, k, p) \<in> set r. getPackageName cfg p = getPackageName cfg p0)
           \<longrightarrow> nm = getPackageName cfg p0)"
proof -
  let ?T = "clock s + sum_list (map fst r)"
  let ?s0 = "on_fs cfg k0 p0 s"
  have s0: "?s0 = s\<lparr>console := console s @ [Seen k0 p0],
                     timeout := Some (clock s + 300, getPackageName cfg p0)\<rparr>"
    using p0 by (simp add: on_fs_registered)
  have last: "(if r = [] then getPackageName cfg p0 else getPackageName cfg (snd (snd (last r)))) = nm"
    unfolding nm by simp
  define s1 where "s1 = s\<lparr>console := console s @ Seen k0 p0 # map (\<lambda>(d, k, p). Seen k p) r,
                   clock := ?T, timeout := Some (?T + 300, nm)\<rparr>"
  have b: "run cfg (burst r) ?s0 = Some s1"
    using run_burst [OF r, of ?s0 "getPackageName cfg p0"] last by (simp add: s0 s1_def)
  define s' where "s' = elapse cfg e s1"
  have run: "run cfg (Emit k0 p0 # burst r @ [Elapse e]) s = Some s'"
    by (simp add: run_append b s'_def)
  have s': "s' = (queueBuild cfg nm
               (s\<lparr>console := console s @ Seen k0 p0 # map (\<lambda>(d, k, p). Seen k p) r,
                  clock := ?T + 300, timeout := None,
                  fired := fired s @ [(?T + 300, nm)]\<rparr>))\<lparr>clock := ?T + e\<rparr>"
    unfolding s'_def using e elapse_due [of s1 "?T + 300" nm e cfg] by (simp add: s1_def)
  have seen: "build_calls (map (\<lambda>(d, k, p). Seen k p) r) = []"
    by (induction r) auto
  have f: "fired s' = fired s @ [(?T + 300, nm)]" "timeout s' = None"
    "tasks s' =
         (if nm \<in> building s then tasks s
          else tasks s @ [\<lparr>name = nm, originalCwd = cwd s, awaited = FromQueue, settled = Pending\<rparr>])"
    "building s' = insert nm (building s)"
    "buildQueue s' = (if nm \<in> building s then insert nm (buildQueue s) else buildQueue s)"
    "build_calls (console s') = build_calls (console s) @ (if nm \<in> building s then [] else [nm])"
    unfolding s' by (auto simp: queueBuild_def buildPackage_def build_calls_append seen)
  have same: "(\<forall>(d, k, p) \<in> set r. getPackageName cfg p = getPackageName cfg p0)
           \<longrightarrow> nm = getPackageName cfg p0"
    unfolding nm by (cases "r = []") (auto dest!: last_in_set)
  from run s' f same show ?thesis by (intro exI [of _ s'] conjI)
qed

theorem burst_fires_once_witness:
  "getPackageName example_cfg [''repo'', ''packages'', ''b'', ''src'', ''y.ts''] \<in> set (packages example_cfg)
   \<and> (50::nat) < 300 \<and> (299::nat) < 300
   \<and> getPackageName example_cfg [''repo'', ''packages'', ''b'', ''src'', ''lib'', ''z.ts'']
       \<in> set (packages example_cfg)
   \<and> (300::nat) \<le> 300
   \<and> ''b'' = getPackageName example_cfg (snd (snd (last
         [(0, Change, [''repo'', ''packages'', ''b'', ''src'', ''y.ts'']),
          (50, Add, [''repo'', ''packages'', ''b'', ''src'', ''lib'', ''z.ts'']),
          (299::nat, Change, [''repo'', ''packages'', ''b'', ''src'', ''y.ts''])])))
   \<and> (\<exists>s'. run example_cfg
               (Emit Change [''repo'', ''packages'', ''b'', ''src'', ''y.ts'']
                # burst [(50, Add, [''repo'', ''packages'', ''b'', ''src'', ''lib'', ''z.ts'']),
                         (299, Change, [''repo'', ''packages'', ''b'', ''src'', ''y.ts''])]
                @ [Elapse 300])
               example_busy = Some s'
         \<and> fired s' = [(300, ''a''), (949, ''b'')] \<and> timeout s' = None
         \<and> map name (tasks s') = [''a'', ''b'']
         \<and> building s' = {''b'', ''a''} \<and> buildQueue s' = {})"
proof -
  have h: "getPackageName example_cfg [''repo'', ''packages'', ''b'', ''src'', ''y.ts''] \<in> set (packages example_cfg)"
    "\<forall>(d, k, p) \<in> set [(50::nat, Add, [''repo'', ''packages'', ''b'', ''src'', ''lib'', ''z.ts'']),
                         (299, Change, [''repo'', ''packages'', ''b'', ''src'', ''y.ts''])].
        d < 300 \<and> getPackageName example_cfg p \<in> set (packages example_cfg)"
    "(300::nat) \<le> 300"
    "''b'' = getPackageName example_cfg (snd (snd (last
         ((0, Change, [''repo'', ''packages'', ''b'', ''src'', ''y.ts''])
          # [(50::nat, Add, [''repo'', ''packages'', ''b'', ''src'', ''lib'', ''z.ts'']),
             (299, Change, [''repo'', ''packages'', ''b'', ''src'', ''y.ts''])]))))"
    by (simp_all add: example_cfg_def getPackageName_def)
  from burst_fires_once [OF h, of example_busy] obtain s' where
    l: "run example_cfg
               (Emit Change [''repo'', ''packages'', ''b'', ''src'', ''y.ts'']
                # burst [(50, Add, [''repo'', ''packages'', ''b'', ''src'', ''lib'', ''z.ts'']),
                         (299, Change, [''repo'', ''packages'', ''b'', ''src'', ''y.ts''])]
                @ [Elapse 300])
               example_busy = Some s'"
    and m: "fired s' = fired example_busy @ [(clock example_busy + sum_list (map fst
               [(50, Add, [''repo'', ''packages'', ''b'', ''src'', ''lib'', ''z.ts'']),
                (299::nat, Change, [''repo'', ''packages'', ''b'', ''src'', ''y.ts''])]) + 300, ''b'')]"
      "timeout s' = None"
      "tasks s' =
         (if ''b'' \<in> building example_busy then tasks example_busy
          else tasks example_busy @ [\<lparr>name = ''b'', originalCwd = cwd example_busy, awaited = FromQueue, settled = Pending\<rparr>])"
      "building s' = insert ''b'' (building example_busy)"
      "buildQueue s' = (if ''b'' \<in> building example_busy then insert ''b'' (buildQueue example_busy) else buildQueue example_busy)"
    by (elim conjE exE)
  then have "\<exists>s'. run example_cfg
               (Emit Change [''repo'', ''packages'', ''b'', ''src'', ''y.ts'']
                # burst [(50, Add, [''repo'', ''packages'', ''b'', ''src'', ''lib'', ''z.ts'']),
                         (299, Change, [''repo'', ''packages'', ''b'', ''src'', ''y.ts''])]
                @ [Elapse 300])
               example_busy = Some s'
         \<and> fired s' = [(300, ''a''), (949, ''b'')] \<and> timeout s' = None
         \<and> map name (tasks s') = [''a'', ''b'']
         \<and> building s' = {''b'', ''a''} \<and> buildQueue s' = {}"
    by (intro exI [of _ s'] conjI) (simp_all add: example_busy_def)
  with h show ?thesis by (intro conjI) (simp_all add: example_cfg_def getPackageName_def)
qed

text \<open>The claim as stated fails: it speaks of the events of one package only, but the
  timer is shared. After the initial pass, three changes in \<open>a\<close> 50 time-units apart
  are followed, 100 time-units later, by a change in \<open>b\<close>: the debounced function runs
  once, for \<open>b\<close>, and the burst for \<open>a\<close> triggers no build at all.\<close>

theorem burst_lost_to_other_package:
  "map_option (\<lambda>s. (fired s, build_calls (console s), map name (tasks s), timeout s))
     (run example_cfg
        (pass [Succeeded, Succeeded] @
         [Emit Change [''repo'', ''packages'', ''a'', ''src'', ''x.ts''], Elapse 50,
          Emit Change [''repo'', ''packages'', ''a'', ''src'', ''x.ts''], Elapse 50,
          Emit Change [''repo'', ''packages'', ''a'', ''src'', ''x.ts''], Elapse 100,
          Emit Change [''repo'', ''packages'', ''b'', ''src'', ''y.ts''], Elapse 300])
        (init example_cfg [''repo'']))
   = Some ([(500, ''b'')], [''a'', ''b'', ''b''], [''b''], None)"
  by (simp add: ev)

text \<open>
  C2, as amended. The debouncer has one timer for all packages. A watcher event for a
  file of a registered package arms it for that package, whatever was armed before
  and for whichever package; so of two events less than 300 time-units apart, for the
  same or for different packages, only the second one's package is passed to
  \<^verbatim>\<open>queueBuild\<close>.
\<close>

theorem shared_timer:
  assumes p1: "getPackageName cfg p1 \<in> set (packages cfg)"
    and p2: "getPackageName cfg p2 \<in> set (packages cfg)"
    and d: "d < 300" and e: "300 \<le> e"
  shows "timeout (on_fs cfg k2 p2 s) = Some (clock s + 300, getPackageName cfg p2)
     \<and> (\<exists>s'. run cfg [Emit k1 p1, Elapse d, Emit k2 p2, Elapse e] s = Some s'
           \<and> fired s' = fired s @ [(clock s + d + 300, getPackageName cfg p2)]
           \<and> timeout s' = None)"
proof -
  let ?n = "getPackageName cfg p2"
  define s2 where "s2 = on_fs cfg k2 p2 (elapse cfg d (on_fs cfg k1 p1 s))"
  have s2: "s2 = s\<lparr>console := console s @ [Seen k1 p1, Seen k2 p2], clock := clock s + d,
                   timeout := Some (clock s + d + 300, ?n)\<rparr>"
    using p1 p2 d by (simp add: s2_def on_fs_registered elapse_early)
  define s' where "s' = elapse cfg e s2"
  have run: "run cfg [Emit k1 p1, Elapse d, Emit k2 p2, Elapse e] s = Some s'"
    by (simp add: s'_def s2_def)
  have "s' = (queueBuild cfg ?n (s2\<lparr>clock := clock s + d + 300, timeout := None,
                fired := fired s2 @ [(clock s + d + 300, ?n)]\<rparr>))\<lparr>clock := clock s2 + e\<rparr>"
    unfolding s'_def using e elapse_due [of s2 "clock s + d + 300" ?n e cfg] by (simp add: s2)
  then have "fired s' = fired s @ [(clock s + d + 300, ?n)]" "timeout s' = None"
    by (simp_all add: queueBuild_def buildPackage_def s2)
  with run have "\<exists>s'. run cfg [Emit k1 p1, Elapse d, Emit k2 p2, Elapse e] s = Some s'
           \<and> fired s' = fired s @ [(clock s + d + 300, ?n)] \<and> timeout s' = None"
    by (intro exI [of _ s'] conjI)
  moreover have "timeout (on_fs cfg k2 p2 s) = Some (clock s + 300, ?n)"
    using p2 by (simp add: on_fs_registered)
  ultimately show ?thesis by (intro conjI)
qed

theorem shared_timer_witness:
  "getPackageName example_cfg [''repo'', ''packages'', ''a'', ''src'', ''x.ts''] \<in> set (packages example_cfg)
   \<and> getPackageName example_cfg [''repo'', ''packages'', ''b'', ''src'', ''y.ts''] \<in> set (packages example_cfg)
   \<and> (100::nat) < 300 \<and> (300::nat) \<le> 1000
   \<and> timeout (on_fs example_cfg Change [''repo'', ''packages'', ''b'', ''src'', ''y.ts''] example_busy)
       = Some (600, ''b'')
   \<and> (\<exists>s'. run example_cfg
               [Emit Change [''repo'', ''packages'', ''a'', ''src'', ''x.ts''], Elapse 100,
                Emit Change [''repo'', ''packages'', ''b'', ''src'', ''y.ts''], Elapse 1000]
               example_busy = Some s'
         \<and> fired s' = [(300, ''a''), (700, ''b'')] \<and> timeout s' = None)"
proof -
  have h: "getPackageName example_cfg [''repo'', ''packages'', ''a'', ''src'', ''x.ts''] \<in> set (packages example_cfg)"
    "getPackageName example_cfg [''repo'', ''packages'', ''b'', ''src'', ''y.ts''] \<in> set (packages example_cfg)"
    "(100::nat) < 300" "(300::nat) \<le> 1000"
    by (simp_all add: example_cfg_def getPackageName_def)
  have g: "getPackageName example_cfg [''repo'', ''packages'', ''b'', ''src'', ''y.ts''] = ''b''"
    by (simp add: example_cfg_def getPackageName_def)
  note t = shared_timer [OF h, of Change example_busy Change]
  from t have a: "timeout (on_fs example_cfg Change [''repo'', ''packages'', ''b'', ''src'', ''y.ts''] example_busy)
       = Some (600, ''b'')"
    unfolding g by (simp add: example_busy_def)
  from t obtain s' where
    "run example_cfg
               [Emit Change [''repo'', ''packages'', ''a'', ''src'', ''x.ts''], Elapse 100,
                Emit Change [''repo'', ''packages'', ''b'', ''src'', ''y.ts''], Elapse 1000]
               example_busy = Some s'"
    "fired s' = fired example_busy @ [(clock example_busy + 100 + 300, ''b'')]" "timeout s' = None"
    unfolding g by (elim conjE exE)
  then have "\<exists>s'. run example_cfg
               [Emit Change [''repo'', ''packages'', ''a'', ''src'', ''x.ts''], Elapse 100,
                Emit Change [''repo'', ''packages'', ''b'', ''src'', ''y.ts''], Elapse 1000]
               example_busy = Some s'
         \<and> fired s' = [(300, ''a''), (700, ''b'')] \<and> timeout s' = None"
    by (intro exI [of _ s'] conjI) (simp_all add: example_busy_def)
  with h a show ?thesis by (intro conjI)
qed

text \<open>The claim as stated fails. After the initial pass, a change in \<open>a\<close> arms the
  timer for \<open>a\<close>; a change in \<open>b\<close> 100 time-units later replaces it, and when the
  quiet window has passed \<^verbatim>\<open>queueBuild\<close> is called for \<open>b\<close> only: after the two
  builds of the initial pass there is a build of \<open>b\<close> and none of \<open>a\<close>.\<close>

theorem other_package_cancels_timer:
  "map_option timeout
     (run example_cfg
        (pass [Succeeded, Succeeded] @
         [Emit Change [''repo'', ''packages'', ''a'', ''src'', ''x.ts''], Elapse 100])
        (init example_cfg [''repo'']))
   = Some (Some (300, ''a''))
   \<and> map_option timeout
     (run example_cfg
        (pass [Succeeded, Succeeded] @
         [Emit Change [''repo'', ''packages'', ''a'', ''src'', ''x.ts''], Elapse 100,
          Emit Change [''repo'', ''packages'', ''b'', ''src'', ''y.ts'']])
        (init example_cfg [''repo'']))
   = Some (Some (400, ''b''))
   \<and> map_option (\<lambda>s. (fired s, timeout s, build_calls (console s), map name (tasks s)))
     (run example_cfg
        (pass [Succeeded, Succeeded] @
         [Emit Change [''repo'', ''packages'', ''a'', ''src'', ''x.ts''], Elapse 100,
          Emit Change [''repo'', ''packages'', ''b'', ''src'', ''y.ts''], Elapse 1000])
        (init example_cfg [''repo'']))
   = Some ([(400, ''b'')], None, [''a'', ''b'', ''b''], [''b''])"
  by (simp add: ev)

section \<open>The initial pass\<close>














section \<open>Errors the catch does not absorb\<close>

text \<open>An error with a message is absorbed: it is logged, the promise is fulfilled and
  nothing is rejected.\<close>

lemma caught_error_logged:
  assumes "step cfg (Finish i (Threw msg)) s = Some s'"
  shows "console s' = console s @ [ErrorBuilding (name (tasks s ! i)) msg]"
    and "settled (tasks s' ! i) = Fulfilled" and "unhandled s' = unhandled s"
  using assms by (auto simp: finish_ends split: if_splits)

text \<open>
  C9. The \<^verbatim>\<open>catch\<close> of \<^verbatim>\<open>buildPackage\<close> does not absorb every error of the build.
  After the initial pass of the example registry, a change in \<open>a\<close> starts a build of
  \<open>a\<close>, and the body of that build throws \<^verbatim>\<open>undefined\<close>. Nothing is logged, the
  promise of the invocation is rejected, and so is the one of \<^verbatim>\<open>queueBuild\<close>, which
  nobody handles. \<open>a\<close> stays in \<open>building\<close> with no build under way: a later change
  in \<open>a\<close> is only queued, and no build of \<open>a\<close> starts again.
\<close>

theorem thrown_value_rejects:
  "map_option (\<lambda>s. (unhandled s, map settled (tasks s), building s, buildQueue s, console s))
     (run example_cfg
        (pass [Succeeded, Succeeded] @
         [Emit Change [''repo'', ''packages'', ''a'', ''src'', ''x.ts''], Elapse 300,
          Fail 0 NoMessage,
          Emit Change [''repo'', ''packages'', ''a'', ''src'', ''x.ts''], Elapse 300])
        (init example_cfg [''repo'']))
   = Some ([''TypeError''], [Rejected ''TypeError''], {''a''}, {''a''},
           [Watching, BuildingAll, Building ''a'', Built ''a'', Building ''b'', Built ''b'',
            AllBuilt, Seen Change [''repo'', ''packages'', ''a'', ''src'', ''x.ts''],
            Building ''a'', Seen Change [''repo'', ''packages'', ''a'', ''src'', ''x.ts'']])"
  by (simp add: ev buildPackage_finish_def await_throws_def)

section \<open>Overlapping builds\<close>

text \<open>
  C1. The initial loop calls \<^verbatim>\<open>buildPackage\<close> without going through \<open>building\<close>.
  With the example registry, a change to a file of \<open>a\<close> while the initial build of
  \<open>a\<close> is under way makes \<^verbatim>\<open>queueBuild\<close> start a second build of \<open>a\<close> 300
  time-units later: two invocations for \<open>a\<close> are outstanding at once.
\<close>

theorem overlapping_builds_of_one_package:
  "map_option (\<lambda>s. (outstanding s ''a'', map awaited (tasks s), building s))
     (run example_cfg
        [Emit Change [''repo'', ''packages'', ''a'', ''src'', ''x.ts''], Elapse 300]
        (init example_cfg [''repo'']))
   = Some (2, [FromInitial, FromQueue], {''a''})"
  by (simp add: ev outstanding_def)

text \<open>An invocation notes the working directory it finds, and when it ends, whatever
  way, the process is back in that directory.\<close>

lemma buildPackage_restores:
  "originalCwd (last (tasks (buildPackage cfg a nm s))) = cwd s"
  "step cfg (Finish i out) s = Some s' \<Longrightarrow> cwd s' = originalCwd (tasks s ! i)"
  by (auto simp: buildPackage_def finish_ends split: if_splits)

text \<open>
  C10. Each invocation restores the directory it found. When the build of \<open>b\<close>
  starts during the build of \<open>a\<close> and ends after it, it finds, and restores, the
  root of \<open>a\<close>: after the initial pass and these two builds no build is left and the
  process is in the root of package \<open>a\<close>, not in the directory it started in.
\<close>

theorem cwd_left_in_package_root:
  "cwd (init example_cfg [''repo'']) = [''repo'', ''packages'', ''a'']
   \<and> originalCwd (hd (tasks (init example_cfg [''repo'']))) = [''repo'']
   \<and> map_option (\<lambda>s. (cwd s, tasks s, todo s))
       (run example_cfg
          (pass [Succeeded, Succeeded] @
           [Emit Change [''repo'', ''packages'', ''a'', ''src'', ''x.ts''], Elapse 300,
            Emit Change [''repo'', ''packages'', ''b'', ''src'', ''y.ts''], Elapse 300,
            Finish 0 Succeeded, Resume 0, Finish 0 Succeeded, Resume 0])
          (init example_cfg [''repo'']))
     = Some ([''repo'', ''packages'', ''a''], [], [])"
  by (simp add: ev)

end
